theory Spec2Isabelle
  imports Complex_Main "HOL-Library.Multiset"
begin

section \<open>Data model\<close>

text \<open>
  Modelled from the spec: the struct \<open>FunscriptAction\<close> is declared in \<open>Funscript.h\<close>, which is
  not among the sources. The spec gives it two integer fields, the timestamp in milliseconds and
  the position, and an equality that compares both fields. The source names the fields \<open>at\<close> and
  \<open>pos\<close>; \<open>at\<close> is written \<open>at_ms\<close> here, since \<open>at\<close> is a constant of the library. The
  source treats both as \<open>int32_t\<close>; they are modelled as unbounded integers, and the places
  where the width matters are written out in the functions that use them.
\<close>

record FunscriptAction =
  at_ms :: int
  pos :: int

text \<open>
  The class \<open>Funscript\<close>, reduced to the members the functions below read or write: its
  \<open>FunscriptData\<close> (\<open>data.Actions\<close>, \<open>data.selection\<close>), the two change flags, and the
  spline index (\<open>SplineNeedsUpdate\<close>, \<open>ScriptSpline.ActionMap\<close>). The member \<open>data\<close> is modelled
  by record extension, so \<open>Actions s\<close> reads \<open>data.Actions\<close>. The \<open>ActionMap\<close> is an ordered
  map from timestamp to array index; it is modelled as an association list in ascending key
  order.
\<close>

record FunscriptData =
  Actions :: "FunscriptAction list"
  selection :: "FunscriptAction list"

record Funscript = FunscriptData +
  funscriptChanged :: bool
  selectionChanged :: bool
  SplineNeedsUpdate :: bool
  ActionMap :: "(int \<times> nat) list"

section \<open>Iterator algorithms of the standard library\<close>

text \<open>\<open>std::find_if\<close> over a whole vector: the offset of the first element that satisfies the
  predicate, and the length of the vector (the \<open>end()\<close> iterator) when there is none.\<close>

fun find_if :: "('a \<Rightarrow> bool) \<Rightarrow> 'a list \<Rightarrow> nat" where
  "find_if P [] = 0"
| "find_if P (x # xs) = (if P x then 0 else Suc (find_if P xs))"

text \<open>\<open>std::find_if\<close> over the range that starts at offset \<open>k\<close>.\<close>

definition find_if_from :: "nat \<Rightarrow> ('a \<Rightarrow> bool) \<Rightarrow> 'a list \<Rightarrow> nat" where
  "find_if_from k P xs = k + find_if P (drop k xs)"

text \<open>\<open>vector::insert(it, x)\<close> and \<open>vector::erase(it)\<close> at a valid offset.\<close>

definition insert_at :: "nat \<Rightarrow> 'a \<Rightarrow> 'a list \<Rightarrow> 'a list" where
  "insert_at i x xs = take i xs @ x # drop i xs"

definition erase_at :: "nat \<Rightarrow> 'a list \<Rightarrow> 'a list" where
  "erase_at i xs = take i xs @ drop (Suc i) xs"

text \<open>
  \<open>std::remove_if\<close>: the elements that do not satisfy the predicate are moved to the front, in
  order, and the offset behind them is returned. The vector keeps its length. The standard
  leaves the elements from the returned offset on unspecified; the implementations of the
  standard library assign only to the offsets before it, so for a trivially copyable element
  type the other offsets still hold what they held before the call. The model returns the
  vector so rearranged, and the offset.
\<close>

definition remove_if :: "('a \<Rightarrow> bool) \<Rightarrow> 'a list \<Rightarrow> 'a list \<times> nat" where
  "remove_if P xs =
     (let kept = filter (\<lambda>x. \<not> P x) xs
      in (kept @ drop (length kept) xs, length kept))"

section \<open>Change notification\<close>

text \<open>
  Modelled from the spec: \<open>NotifyActionsChanged\<close> is defined in \<open>Funscript.h\<close>, which is not
  among the sources. The spec says that every structural mutation invalidates the spline index
  and sets the "actions changed" flag.
\<close>

definition NotifyActionsChanged :: "bool \<Rightarrow> Funscript \<Rightarrow> Funscript" where
  "NotifyActionsChanged isEdit s = s\<lparr>funscriptChanged := True, SplineNeedsUpdate := True\<rparr>"

definition NotifySelectionChanged :: "Funscript \<Rightarrow> Funscript" where
  "NotifySelectionChanged s = s\<lparr>selectionChanged := True\<rparr>"

section \<open>Lookup of an action\<close>

text \<open>
  \<open>getAction\<close> returns a pointer into \<open>data.Actions\<close> or null; the pointer is modelled by the
  offset it points to. With a valid spline index the lookup goes by timestamp only, through
  \<open>ActionMap\<close>; otherwise it is \<open>std::find\<close> with the equality of both fields.
\<close>

definition getAction :: "Funscript \<Rightarrow> FunscriptAction \<Rightarrow> nat option" where
  "getAction s action =
     (if \<not> SplineNeedsUpdate s then
        (case map_of (ActionMap s) (at_ms action) of
           Some idx \<Rightarrow> Some idx
         | None \<Rightarrow> None)
      else
        (let it = find_if (\<lambda>a. a = action) (Actions s)
         in if it \<noteq> length (Actions s) then Some it else None))"

section \<open>Mutation of the action store\<close>

definition AddActionSafe :: "FunscriptAction \<Rightarrow> Funscript \<Rightarrow> Funscript" where
  "AddActionSafe newAction s =
     (let it = find_if (\<lambda>action. at_ms newAction < at_ms action) (Actions s);
          safety = find_if_from (if it > 0 then it - 1 else 0)
                     (\<lambda>action. at_ms newAction = at_ms action) (Actions s)
      in if safety = length (Actions s)
         then NotifyActionsChanged True (s\<lparr>Actions := insert_at it newAction (Actions s)\<rparr>)
         else s)"

definition checkForInvalidatedActions :: "Funscript \<Rightarrow> Funscript" where
  "checkForInvalidatedActions s =
     (case remove_if (\<lambda>selected. getAction s selected = None) (selection s) of
        (moved, it) \<Rightarrow>
          if it \<noteq> length moved
          then NotifySelectionChanged (s\<lparr>selection := erase_at it moved\<rparr>)
          else s\<lparr>selection := moved\<rparr>)"

definition RemoveAction :: "FunscriptAction \<Rightarrow> bool \<Rightarrow> Funscript \<Rightarrow> Funscript" where
  "RemoveAction action checkInvalidSelection s =
     (let it = find_if (\<lambda>a. a = action) (Actions s)
      in if it \<noteq> length (Actions s)
         then (let s1 = NotifyActionsChanged True (s\<lparr>Actions := erase_at it (Actions s)\<rparr>)
               in if checkInvalidSelection then checkForInvalidatedActions s1 else s1)
         else s)"

text \<open>The loop of \<open>RemoveActions\<close> over the vector it is given.\<close>

fun RemoveActions_loop :: "FunscriptAction list \<Rightarrow> Funscript \<Rightarrow> Funscript" where
  "RemoveActions_loop [] s = s"
| "RemoveActions_loop (action # rest) s = RemoveActions_loop rest (RemoveAction action False s)"

definition RemoveActions :: "FunscriptAction list \<Rightarrow> Funscript \<Rightarrow> Funscript" where
  "RemoveActions removeActions s =
     checkForInvalidatedActions (NotifyActionsChanged True (RemoveActions_loop removeActions s))"

text \<open>\<open>RemoveActionsInInterval\<close> erases from \<open>data.Actions\<close> with the erase-remove idiom, which
  drops everything behind the offset that \<open>std::remove_if\<close> returns, and reconciles the
  selection before it notifies.\<close>

definition RemoveActionsInInterval :: "int \<Rightarrow> int \<Rightarrow> Funscript \<Rightarrow> Funscript" where
  "RemoveActionsInInterval fromMs toMs s =
     (case remove_if (\<lambda>action. at_ms action \<ge> fromMs \<and> at_ms action \<le> toMs) (Actions s) of
        (moved, it) \<Rightarrow>
          NotifyActionsChanged True (checkForInvalidatedActions (s\<lparr>Actions := take it moved\<rparr>)))"

text \<open>A timeline is sorted when its timestamps are strictly increasing.\<close>

definition strictly_sorted :: "FunscriptAction list \<Rightarrow> bool" where
  "strictly_sorted xs = sorted_wrt (<) (map at_ms xs)"

text \<open>Sequences of inserts and removes on the store.\<close>

datatype store_op = Insert FunscriptAction | Remove FunscriptAction bool

fun apply_store_op :: "store_op \<Rightarrow> Funscript \<Rightarrow> Funscript" where
  "apply_store_op (Insert a) s = AddActionSafe a s"
| "apply_store_op (Remove a c) s = RemoveAction a c s"

fun apply_store_ops :: "store_op list \<Rightarrow> Funscript \<Rightarrow> Funscript" where
  "apply_store_ops [] s = s"
| "apply_store_ops (x # xs) s = apply_store_ops xs (apply_store_op x s)"

section \<open>Machine integers\<close>

text \<open>
  Timestamps, positions and times are \<open>int32_t\<close>, the tolerance of \<open>getActionAtTime\<close> is
  \<open>uint32_t\<close>. \<open>u32\<close> is the conversion of an integer to \<open>uint32_t\<close>; \<open>s32\<close> is the value of
  an integer as \<open>int32_t\<close>, two's complement. \<open>getActionAtTime\<close> mixes the two types: by the
  usual arithmetic conversions a sum, difference or comparison of an \<open>int32_t\<close> and a
  \<open>uint32_t\<close> is evaluated on unsigned 32-bit values, and \<open>s32\<close> converts such a value to the
  \<open>int32_t\<close> key of the map. A subtraction of two \<open>int32_t\<close> that overflows is undefined in
  C++; the compiled code wraps around, and the model of \<open>GetPositionAtTime\<close> and
  \<open>EqualizeSelection\<close> does the same with \<open>s32\<close>.
\<close>

definition u32 :: "int \<Rightarrow> int" where
  "u32 x = x mod 2 ^ 32"

definition s32 :: "int \<Rightarrow> int" where
  "s32 x = (x + 2 ^ 31) mod 2 ^ 32 - 2 ^ 31"

definition INT32_MAX :: int where
  "INT32_MAX = 2 ^ 31 - 1"


text \<open>The values of a non-negative \<open>int32_t\<close>.\<close>

definition ms_range :: "int \<Rightarrow> bool" where
  "ms_range x = (0 \<le> x \<and> x < 2 ^ 31)"


section \<open>Single-precision arithmetic\<close>

text \<open>
  \<open>GetPositionAtTime\<close> and \<open>EqualizeSelection\<close> compute in \<open>float\<close>. A finite float is
  modelled by the real number it stands for. Every operation computes the exact result and
  rounds it to the nearest number with a significand of 24 bits, halfway cases to the even
  significand, as IEEE 754 single precision does by default. The exponent of a positive number
  \<open>x\<close> is the \<open>e\<close> with \<open>2 ^ e \<le> x < 2 ^ (e + 1)\<close>, not below \<open>-126\<close> (below that the
  spacing of the floats stays \<open>2 ^ -149\<close>) and searched up to \<open>127\<close>. The numbers that occur
  here are quotients, products and sums of 32-bit integers, far below \<open>2 ^ 128\<close>, so infinities
  and NaN do not arise; the two divisions have a non-zero divisor where they are evaluated.
\<close>

fun exp_ge1 :: "nat \<Rightarrow> real \<Rightarrow> int" where
  "exp_ge1 0 x = 0"
| "exp_ge1 (Suc n) x = (if x < 2 then 0 else 1 + exp_ge1 n (x / 2))"

fun exp_lt1 :: "nat \<Rightarrow> real \<Rightarrow> int" where
  "exp_lt1 0 x = 0"
| "exp_lt1 (Suc n) x = (if 1 \<le> x then 0 else exp_lt1 n (2 * x) - 1)"

definition binary_exponent :: "real \<Rightarrow> int" where
  "binary_exponent x = (if 1 \<le> x then exp_ge1 127 x else exp_lt1 126 x)"

definition round_ties_even :: "real \<Rightarrow> int" where
  "round_ties_even q =
     (let f = \<lfloor>q\<rfloor>; r = q - of_int f
      in if r < 1 / 2 then f else if r > 1 / 2 then f + 1 else if even f then f else f + 1)"

text \<open>The spacing of the floats with exponent \<open>e\<close>.\<close>

definition ulp32 :: "int \<Rightarrow> real" where
  "ulp32 e = (if e \<ge> 23 then 2 ^ nat (e - 23) else 1 / 2 ^ nat (23 - e))"

definition fl32 :: "real \<Rightarrow> real" where
  "fl32 x =
     (if x = 0 then 0
      else (let u = ulp32 (binary_exponent \<bar>x\<bar>)
            in sgn x * of_int (round_ties_even (\<bar>x\<bar> / u)) * u))"

text \<open>The conversion of an integer to \<open>float\<close>, and the three operations.\<close>

definition to_float :: "int \<Rightarrow> real" where
  "to_float i = fl32 (of_int i)"

definition fadd :: "real \<Rightarrow> real \<Rightarrow> real" where
  "fadd x y = fl32 (x + y)"

definition fmul :: "real \<Rightarrow> real \<Rightarrow> real" where
  "fmul x y = fl32 (x * y)"

definition fdiv :: "real \<Rightarrow> real \<Rightarrow> real" where
  "fdiv x y = fl32 (x / y)"



section \<open>Spline index\<close>

text \<open>\<open>std::map::lower_bound\<close>: the first entry whose key is not less than \<open>k\<close>; \<open>None\<close> is
  \<open>end()\<close>.\<close>

definition lower_bound :: "(int \<times> nat) list \<Rightarrow> int \<Rightarrow> (int \<times> nat) option" where
  "lower_bound m k = find (\<lambda>entry. k \<le> fst entry) m"

text \<open>
  Modelled from the spec: the rebuild of the index is in \<open>FunscriptSpline.h\<close>, which is not
  among the sources. The spec describes it as a mapping from timestamp to array index, built in
  one pass over the sorted actions.
\<close>

definition SplineUpdate :: "FunscriptAction list \<Rightarrow> (int \<times> nat) list" where
  "SplineUpdate actions = zip (map at_ms actions) [0..<length actions]"

section \<open>Queries\<close>

text \<open>
  The loop of \<open>GetPositionAtTime\<close> reads \<open>Actions[i]\<close> and \<open>Actions[i + 1]\<close> for \<open>i\<close> from
  the start offset while \<open>i < size - 1\<close>; it is a recursion over the vector from the start
  offset on, and \<open>None\<close> means that the loop ended without a return. The differences of
  timestamps and of positions are \<open>int32_t\<close> subtractions.
\<close>

fun GetPositionAtTime_loop :: "FunscriptAction list \<Rightarrow> int \<Rightarrow> real option" where
  "GetPositionAtTime_loop (action # next # rest) time_ms =
     (if time_ms > at_ms action \<and> time_ms < at_ms next then
        (let last_pos = pos action;
             diff = to_float (s32 (pos next - pos action));
             progress = fdiv (to_float (s32 (time_ms - at_ms action)))
                             (to_float (s32 (at_ms next - at_ms action)));
             interp = fadd (to_float last_pos) (fmul progress diff)
         in Some interp)
      else if at_ms action = time_ms then Some (to_float (pos action))
      else GetPositionAtTime_loop (next # rest) time_ms)"
| "GetPositionAtTime_loop _ time_ms = None"

definition GetPositionAtTime :: "Funscript \<Rightarrow> int \<Rightarrow> real" where
  "GetPositionAtTime s time_ms =
     (if length (Actions s) = 0 then 0
      else if length (Actions s) = 1 then to_float (pos (Actions s ! 0))
      else
        (let i = (if \<not> SplineNeedsUpdate s then
                    (case lower_bound (ActionMap s) time_ms of
                       Some indexIt \<Rightarrow> (if snd indexIt > 0 then snd indexIt - 1 else snd indexIt)
                     | None \<Rightarrow> 0)
                  else 0)
         in case GetPositionAtTime_loop (drop i (Actions s)) time_ms of
              Some r \<Rightarrow> r
            | None \<Rightarrow> to_float (pos (last (Actions s)))))"


text \<open>
  The index is usable when it is marked stale, so that the queries ignore it, or when it is
  the index of the current actions.
\<close>

definition spline_consistent :: "Funscript \<Rightarrow> bool" where
  "spline_consistent s = (SplineNeedsUpdate s \<or> ActionMap s = SplineUpdate (Actions s))"

text \<open>
  The loop of \<open>getActionAtTime\<close> over the vector from the start offset on, with the two
  variables \<open>smallestError\<close> and \<open>smallestErrorAction\<close>. The pointer \<open>smallestErrorAction\<close> is
  modelled by the action it points to, \<open>None\<close> for the null pointer. The difference
  \<open>time_ms - action.at\<close> is signed and is taken exact.
\<close>

fun getActionAtTime_loop ::
  "FunscriptAction list \<Rightarrow> int \<Rightarrow> int \<Rightarrow> int \<Rightarrow> FunscriptAction option \<Rightarrow> FunscriptAction option" where
  "getActionAtTime_loop [] time_ms max_error_ms smallestError smallestErrorAction =
     smallestErrorAction"
| "getActionAtTime_loop (action # rest) time_ms max_error_ms smallestError smallestErrorAction =
     (if u32 (at_ms action) > u32 (u32 time_ms + max_error_ms div 2) then smallestErrorAction
      else
        (let error = \<bar>time_ms - at_ms action\<bar>
         in if u32 error \<le> max_error_ms then
              (if error \<le> smallestError
               then getActionAtTime_loop rest time_ms max_error_ms error (Some action)
               else smallestErrorAction)
            else getActionAtTime_loop rest time_ms max_error_ms smallestError smallestErrorAction))"

definition getActionAtTime ::
  "Funscript \<Rightarrow> FunscriptAction list \<Rightarrow> int \<Rightarrow> int \<Rightarrow> FunscriptAction option" where
  "getActionAtTime s actions time_ms max_error_ms =
     (let i = (if \<not> SplineNeedsUpdate s then
                 (case lower_bound (ActionMap s) (s32 (u32 (u32 time_ms - max_error_ms))) of
                    Some indexIt \<Rightarrow> snd indexIt
                  | None \<Rightarrow> 0)
               else 0)
      in getActionAtTime_loop (drop i actions) time_ms max_error_ms INT32_MAX None)"

text \<open>The timestamps that the loop of \<open>getActionAtTime\<close> accepts: not more than
  \<open>max_error_ms\<close> before \<open>time_ms\<close> and not more than half of it after.\<close>

definition in_window :: "int \<Rightarrow> int \<Rightarrow> FunscriptAction \<Rightarrow> bool" where
  "in_window time_ms max_error_ms a =
     (time_ms - max_error_ms \<le> at_ms a \<and> at_ms a \<le> time_ms + max_error_ms div 2)"

text \<open>
  The result that the spec asks of \<open>actionNear\<close>, in its words: the action that minimizes
  \<open>|t - action.timestamp|\<close> among those within \<open>maxErrorMs\<close>, the first one in ascending order
  among equidistant ones, and none if no action is within the tolerance.
\<close>

definition actionNear_spec ::
  "FunscriptAction list \<Rightarrow> int \<Rightarrow> int \<Rightarrow> FunscriptAction option \<Rightarrow> bool" where
  "actionNear_spec actions t maxErrorMs r =
     (case r of
        None \<Rightarrow> \<forall>a\<in>set actions. \<not> \<bar>t - at_ms a\<bar> \<le> maxErrorMs
      | Some a \<Rightarrow>
          a \<in> set actions \<and> \<bar>t - at_ms a\<bar> \<le> maxErrorMs \<and>
          (\<forall>b\<in>set actions. \<bar>t - at_ms b\<bar> \<le> maxErrorMs \<longrightarrow>
             \<bar>t - at_ms a\<bar> \<le> \<bar>t - at_ms b\<bar> \<and>
             (\<bar>t - at_ms b\<bar> = \<bar>t - at_ms a\<bar> \<longrightarrow> at_ms a \<le> at_ms b)))"

section \<open>Selection\<close>

text \<open>
  Modelled from the spec: \<open>ClearSelection\<close>, \<open>sortSelection\<close> and \<open>AddAction\<close> are defined in
  \<open>Funscript.h\<close>, which is not among the sources. The spec has the selection cleared, the
  selection re-sorted by timestamp, and an unconditional insert at the position that preserves
  ascending order (the position \<open>AddActionSafe\<close> computes).
\<close>

definition ClearSelection :: "Funscript \<Rightarrow> Funscript" where
  "ClearSelection s = s\<lparr>selection := []\<rparr>"

definition sortSelection :: "Funscript \<Rightarrow> Funscript" where
  "sortSelection s = s\<lparr>selection := sort_key at_ms (selection s)\<rparr>"

definition AddAction :: "FunscriptAction \<Rightarrow> Funscript \<Rightarrow> Funscript" where
  "AddAction newAction s =
     (let it = find_if (\<lambda>action. at_ms newAction < at_ms action) (Actions s)
      in NotifyActionsChanged True (s\<lparr>Actions := insert_at it newAction (Actions s)\<rparr>))"

definition ToggleSelection :: "FunscriptAction \<Rightarrow> Funscript \<Rightarrow> bool \<times> Funscript" where
  "ToggleSelection action s =
     (let it = find_if (\<lambda>a. a = action) (selection s);
          is_selected = (it \<noteq> length (selection s));
          s1 = (if is_selected then s\<lparr>selection := erase_at it (selection s)\<rparr>
                else s\<lparr>selection := selection s @ [action]\<rparr>)
      in (\<not> is_selected, NotifySelectionChanged s1))"

text \<open>The actions that \<open>SelectTime\<close> looks for: those with a timestamp in the closed interval.\<close>

definition in_interval :: "int \<Rightarrow> int \<Rightarrow> FunscriptAction \<Rightarrow> bool" where
  "in_interval from_ms to_ms a = (from_ms \<le> at_ms a \<and> at_ms a \<le> to_ms)"

text \<open>The loop of \<open>SelectTime\<close> over \<open>data.Actions\<close>, which it does not change.\<close>

fun SelectTime_loop :: "FunscriptAction list \<Rightarrow> int \<Rightarrow> int \<Rightarrow> Funscript \<Rightarrow> Funscript" where
  "SelectTime_loop [] from_ms to_ms s = s"
| "SelectTime_loop (action # rest) from_ms to_ms s =
     (if at_ms action \<ge> from_ms \<and> at_ms action \<le> to_ms
      then SelectTime_loop rest from_ms to_ms (snd (ToggleSelection action s))
      else if at_ms action > to_ms then s
      else SelectTime_loop rest from_ms to_ms s)"

definition SelectTime :: "int \<Rightarrow> int \<Rightarrow> bool \<Rightarrow> Funscript \<Rightarrow> Funscript" where
  "SelectTime from_ms to_ms clear s =
     (let s1 = (if clear then ClearSelection s else s);
          s2 = SelectTime_loop (Actions s1) from_ms to_ms s1;
          s3 = (if \<not> clear then sortSelection s2 else s2)
      in NotifySelectionChanged s3)"




section \<open>Undo system\<close>

datatype StateType =
    ADD_EDIT_ACTIONS | ADD_EDIT_ACTION | ADD_ACTION
  | REMOVE_ACTIONS | REMOVE_ACTION
  | MOUSE_MOVE_ACTION | ACTIONS_MOVED
  | CUT_SELECTION | REMOVE_SELECTION | PASTE_COPIED_ACTIONS
  | EQUALIZE_ACTIONS | INVERT_ACTIONS | ISOLATE_ACTION
  | TOP_POINTS_ONLY | MID_POINTS_ONLY | BOTTOM_POINTS_ONLY
  | GENERATE_ACTIONS | FRAME_ALIGN | RANGE_EXTEND
  | TOTAL_UNDOSTATE_TYPES

record ScriptState =
  data :: FunscriptData
  type :: StateType

text \<open>The two vectors are used as stacks: the top is \<open>back()\<close>, the last element.\<close>

record UndoSystem =
  UndoStack :: "ScriptState list"
  RedoStack :: "ScriptState list"

definition UndoEmpty :: "UndoSystem \<Rightarrow> bool" where
  "UndoEmpty u = (UndoStack u = [])"

text \<open>\<open>&&\<close> does not evaluate \<open>UndoStack.back()\<close> on an empty stack.\<close>

definition MatchUndoTop :: "UndoSystem \<Rightarrow> StateType \<Rightarrow> bool" where
  "MatchUndoTop u t = (if \<not> UndoEmpty u then type (last (UndoStack u)) = t else False)"

section \<open>Example states\<close>

text \<open>The concrete timelines at which the theorems below are evaluated.\<close>

definition store_example :: Funscript where
  "store_example =
     \<lparr>Actions = [\<lparr>at_ms = 0, pos = 0\<rparr>, \<lparr>at_ms = 10, pos = 5\<rparr>],
      selection = [\<lparr>at_ms = 0, pos = 0\<rparr>],
      funscriptChanged = False, selectionChanged = False, SplineNeedsUpdate = True, ActionMap = []\<rparr>"

definition store_example_ops :: "store_op list" where
  "store_example_ops =
     [Insert \<lparr>at_ms = 5, pos = 50\<rparr>, Insert \<lparr>at_ms = 5, pos = 7\<rparr>,
      Remove \<lparr>at_ms = 0, pos = 0\<rparr> True]"

definition ramp_script :: Funscript where
  "ramp_script = \<lparr>Actions = [\<lparr>at_ms = 0, pos = 0\<rparr>, \<lparr>at_ms = 1000, pos = 100\<rparr>], selection = [],
     funscriptChanged = False, selectionChanged = False, SplineNeedsUpdate = True, ActionMap = []\<rparr>"

definition late_script :: Funscript where
  "late_script = \<lparr>Actions = [\<lparr>at_ms = 100, pos = 10\<rparr>, \<lparr>at_ms = 200, pos = 90\<rparr>], selection = [],
     funscriptChanged = False, selectionChanged = False, SplineNeedsUpdate = False,
     ActionMap = [(100, 0), (200, 1)]\<rparr>"

definition three_selected :: Funscript where
  "three_selected =
     \<lparr>Actions = [\<lparr>at_ms = 0, pos = 0\<rparr>, \<lparr>at_ms = 100, pos = 50\<rparr>, \<lparr>at_ms = 200, pos = 100\<rparr>],
      selection = [\<lparr>at_ms = 0, pos = 0\<rparr>, \<lparr>at_ms = 100, pos = 50\<rparr>, \<lparr>at_ms = 200, pos = 100\<rparr>],
      funscriptChanged = False, selectionChanged = False, SplineNeedsUpdate = True, ActionMap = []\<rparr>"

definition middle_selected :: Funscript where
  "middle_selected =
     \<lparr>Actions = [\<lparr>at_ms = 0, pos = 0\<rparr>, \<lparr>at_ms = 100, pos = 50\<rparr>, \<lparr>at_ms = 200, pos = 100\<rparr>],
      selection = [\<lparr>at_ms = 100, pos = 50\<rparr>],
      funscriptChanged = False, selectionChanged = False, SplineNeedsUpdate = True, ActionMap = []\<rparr>"

definition near_example :: "FunscriptAction list" where
  "near_example = [\<lparr>at_ms = 0, pos = 10\<rparr>, \<lparr>at_ms = 20, pos = 90\<rparr>, \<lparr>at_ms = 100, pos = 50\<rparr>]"

definition stale_script :: Funscript where
  "stale_script = \<lparr>Actions = [], selection = [],
     funscriptChanged = False, selectionChanged = False, SplineNeedsUpdate = True, ActionMap = []\<rparr>"



section \<open>Facts about machine integers\<close>



section \<open>Facts about single-precision arithmetic\<close>

text \<open>
  An integer of magnitude up to \<open>2 ^ 24\<close> is a float, so its conversion is exact. In
  particular \<open>to_float\<close> is the identity on the positions \<open>0 .. 100\<close>.
\<close>

lemma exp_ge1_bounds:
  "1 \<le> x \<Longrightarrow> x < 2 ^ Suc n \<Longrightarrow>
   0 \<le> exp_ge1 n x \<and> 2 ^ nat (exp_ge1 n x) \<le> x \<and> x < 2 ^ Suc (nat (exp_ge1 n x))"
proof (induction n arbitrary: x)
  case 0
  then show ?case by simp
next
  case (Suc n)
  show ?case
  proof (cases "x < 2")
    case True
    then show ?thesis using Suc.prems by simp
  next
    case False
    then have "1 \<le> x / 2" "x / 2 < 2 ^ Suc n" using Suc.prems by simp_all
    from Suc.IH [OF this] have ih: "0 \<le> exp_ge1 n (x / 2)"
      "2 ^ nat (exp_ge1 n (x / 2)) \<le> x / 2" "x / 2 < 2 ^ Suc (nat (exp_ge1 n (x / 2)))"
      by simp_all
    have "nat (1 + exp_ge1 n (x / 2)) = Suc (nat (exp_ge1 n (x / 2)))" using ih(1) by simp
    then show ?thesis using False ih by simp
  qed
qed

lemma round_ties_even_of_int: "round_ties_even (of_int k) = k"
  by (simp add: round_ties_even_def)

lemma to_float_exact:
  assumes "\<bar>i\<bar> \<le> 2 ^ 24"
  shows "to_float i = of_int i"
proof (cases "i = 0")
  case True
  then show ?thesis by (simp add: to_float_def fl32_def)
next
  case False
  define x :: real where "x = \<bar>of_int i\<bar>"
  define e where "e = exp_ge1 127 x"
  have x1: "1 \<le> x" using False by (simp add: x_def)
  have x24: "x \<le> 2 ^ 24"
  proof -
    have "real_of_int \<bar>i\<bar> \<le> real_of_int (2 ^ 24)" using assms by (rule of_int_le_iff [THEN iffD2])
    then show ?thesis by (simp add: x_def)
  qed
  have "x < 2 ^ Suc 127" using x24 by (rule le_less_trans) simp
  from exp_ge1_bounds [OF x1 this]
  have e: "0 \<le> e" "2 ^ nat e \<le> x" "x < 2 ^ Suc (nat e)" by (simp_all add: e_def)
  have "(2::real) ^ nat e \<le> 2 ^ 24" using e(2) x24 by linarith
  then have ne: "nat e \<le> 24" by (rule power_le_imp_le_exp [rotated]) simp
  have be: "binary_exponent x = e" using x1 by (simp add: binary_exponent_def e_def)
  have xi: "x = of_int \<bar>i\<bar>" by (simp add: x_def)
  have "of_int (round_ties_even (x / ulp32 e)) * ulp32 e = x"
  proof (cases "nat e = 24")
    case True
    then have "x = 2 ^ 24" using e(2) x24 by simp
    moreover have "e = 24" using True e(1) by linarith
    ultimately show ?thesis
      by (simp add: ulp32_def round_ties_even_def)
  next
    case notmax: False
    then have lt: "e \<le> 23" using ne e(1) by linarith
    define k where "k = nat (23 - e)"
    have u: "ulp32 e = 1 / 2 ^ k"
    proof (cases "e = 23")
      case True
      then show ?thesis by (simp add: ulp32_def k_def)
    next
      case False
      then show ?thesis using lt by (simp add: ulp32_def k_def)
    qed
    have "x / ulp32 e = of_int (\<bar>i\<bar> * 2 ^ k)" by (simp add: u xi)
    then have "round_ties_even (x / ulp32 e) = \<bar>i\<bar> * 2 ^ k"
      by (simp only: round_ties_even_of_int)
    then show ?thesis by (simp add: u xi)
  qed
  then have "fl32 (of_int i) = sgn (of_int i) * x"
    using False be by (simp add: fl32_def Let_def x_def mult.assoc)
  also have "\<dots> = of_int i" by (simp add: x_def sgn_mult_abs)
  finally show ?thesis by (simp add: to_float_def)
qed

section \<open>Facts about the iterator algorithms\<close>

lemma find_if_end_iff: "find_if P xs = length xs \<longleftrightarrow> (\<forall>x \<in> set xs. \<not> P x)"
  by (induction xs) auto

lemma drop_find_if: "drop (find_if P xs) xs = dropWhile (\<lambda>x. \<not> P x) xs"
  by (induction xs) auto

lemma erase_at_find: "find_if (\<lambda>a. a = x) xs \<noteq> length xs \<Longrightarrow>
    erase_at (find_if (\<lambda>a. a = x) xs) xs = remove1 x xs"
  by (induction xs) (auto simp: erase_at_def)

section \<open>Facts about the store\<close>

lemma strictly_sorted_Cons: "strictly_sorted (x # xs) \<longleftrightarrow> (\<forall>y\<in>set xs. at_ms x < at_ms y) \<and> strictly_sorted xs"
  by (auto simp: strictly_sorted_def)

lemma safety_iff:
  "strictly_sorted xs \<Longrightarrow>
   find_if_from (if find_if (\<lambda>a. n < at_ms a) xs > 0 then find_if (\<lambda>a. n < at_ms a) xs - 1 else 0) (\<lambda>a. n = at_ms a) xs = length xs
   \<longleftrightarrow> (\<forall>a\<in>set xs. at_ms a \<noteq> n)"
proof (induction xs)
  case Nil
  then show ?case by (simp add: find_if_from_def)
next
  case (Cons x xs)
  show ?case
  proof (cases "n < at_ms x")
    case True
    with Cons.prems show ?thesis
      by (auto simp: find_if_from_def strictly_sorted_Cons find_if_end_iff)
  next
    case False
    show ?thesis
    proof (cases "find_if (\<lambda>a. n < at_ms a) xs")
      case 0
      then have "\<forall>a\<in>set xs. n < at_ms a"
        using Cons.prems by (cases xs) (auto simp: strictly_sorted_Cons split: if_splits)
      with False 0 show ?thesis
        by (auto simp: find_if_from_def find_if_end_iff)
    next
      case (Suc k)
      then obtain y ys where xs: "xs = y # ys" and "\<not> n < at_ms y" by (cases xs) (auto split: if_splits)
      then have "at_ms x \<noteq> n" using Cons.prems by (auto simp: strictly_sorted_Cons)
      moreover have "strictly_sorted xs" using Cons.prems by (simp add: strictly_sorted_Cons)
      ultimately show ?thesis using Cons.IH False Suc
        by (auto simp: find_if_from_def)
    qed
  qed
qed

lemma insert_at_sorted:
  "strictly_sorted xs \<Longrightarrow> \<forall>a\<in>set xs. at_ms a \<noteq> at_ms x \<Longrightarrow>
   strictly_sorted (insert_at (find_if (\<lambda>a. at_ms x < at_ms a) xs) x xs)"
  by (induction xs) (auto simp: insert_at_def strictly_sorted_Cons dest: in_set_takeD in_set_dropD)

lemma insert_at_filter:
  "strictly_sorted xs \<Longrightarrow> \<forall>a\<in>set xs. at_ms a \<noteq> at_ms x \<Longrightarrow>
   insert_at (find_if (\<lambda>a. at_ms x < at_ms a) xs) x xs =
     filter (\<lambda>b. at_ms b < at_ms x) xs @ x # filter (\<lambda>b. at_ms x < at_ms b) xs"
proof (induction xs)
  case Nil
  then show ?case by (simp add: insert_at_def)
next
  case (Cons y ys)
  show ?case
  proof (cases "at_ms x < at_ms y")
    case True
    then have "\<forall>b\<in>set ys. at_ms x < at_ms b" using Cons.prems by (auto simp: strictly_sorted_Cons)
    then have "filter (\<lambda>b. at_ms b < at_ms x) ys = []" "filter (\<lambda>b. at_ms x < at_ms b) ys = ys"
      by (auto simp: filter_empty_conv filter_id_conv)
    with True show ?thesis by (simp add: insert_at_def)
  next
    case False
    with Cons show ?thesis by (auto simp: insert_at_def strictly_sorted_Cons)
  qed
qed

lemma remove1_sorted: "strictly_sorted xs \<Longrightarrow> strictly_sorted (remove1 x xs)"
  by (induction xs) (auto simp: strictly_sorted_Cons)

lemma strictly_sorted_distinct: "strictly_sorted xs \<Longrightarrow> distinct (map at_ms xs)"
  by (simp add: strictly_sorted_def strict_sorted_iff)

lemma filter_key_singleton:
  "distinct (map f xs) \<Longrightarrow> x \<in> set xs \<Longrightarrow> filter (\<lambda>b. f b = f x) xs = [x]"
proof (induction xs)
  case Nil
  then show ?case by simp
next
  case (Cons y ys)
  show ?case
  proof (cases "x = y")
    case True
    have "f y \<notin> f ` set ys" using Cons.prems(1) by simp
    then have "\<forall>b\<in>set ys. f b \<noteq> f y" by (metis imageI)
    then have "filter (\<lambda>b. f b = f y) ys = []" by (simp add: filter_empty_conv)
    with True show ?thesis by simp
  next
    case False
    then have "x \<in> set ys" using Cons.prems(2) by simp
    moreover have "f y \<notin> f ` set ys" using Cons.prems(1) by simp
    then have "f y \<noteq> f x" using \<open>x \<in> set ys\<close> by (metis imageI)
    moreover have "distinct (map f ys)" using Cons.prems(1) by simp
    ultimately show ?thesis using Cons.IH by simp
  qed
qed

lemma Actions_Notify [simp]: "Actions (NotifyActionsChanged b s) = Actions s"
  by (simp add: NotifyActionsChanged_def)

lemma Actions_check [simp]: "Actions (checkForInvalidatedActions s) = Actions s"
  by (simp add: checkForInvalidatedActions_def NotifySelectionChanged_def split: prod.splits)

lemma Actions_RemoveAction:
  "Actions (RemoveAction a c s) = remove1 a (Actions s)"
  by (auto simp: RemoveAction_def Let_def erase_at_find find_if_end_iff remove1_idem)

lemma AddActionSafe_duplicate:
  "strictly_sorted (Actions s) \<Longrightarrow> \<exists>b\<in>set (Actions s). at_ms b = at_ms a \<Longrightarrow> AddActionSafe a s = s"
  using safety_iff [of "Actions s" "at_ms a"]
  by (auto simp: AddActionSafe_def Let_def)

lemma Actions_AddActionSafe:
  "strictly_sorted (Actions s) \<Longrightarrow>
   Actions (AddActionSafe a s) =
     (if \<exists>b\<in>set (Actions s). at_ms b = at_ms a then Actions s
      else insert_at (find_if (\<lambda>b. at_ms a < at_ms b) (Actions s)) a (Actions s))"
  using safety_iff [of "Actions s" "at_ms a"]
  by (auto simp: AddActionSafe_def Let_def)

lemma sorted_AddActionSafe:
  "strictly_sorted (Actions s) \<Longrightarrow> strictly_sorted (Actions (AddActionSafe a s))"
  by (auto simp: Actions_AddActionSafe insert_at_sorted)

lemma sorted_apply_op: "strictly_sorted (Actions s) \<Longrightarrow> strictly_sorted (Actions (apply_store_op x s))"
  by (cases x) (auto simp: sorted_AddActionSafe Actions_RemoveAction remove1_sorted)

lemma sorted_apply_ops:
  "strictly_sorted (Actions s) \<Longrightarrow> strictly_sorted (Actions (apply_store_ops ops s))"
  by (induction ops arbitrary: s) (auto simp: sorted_apply_op)

section \<open>The sort invariant of the store\<close>

text \<open>
  Claim C1. Start from a timeline whose actions are strictly increasing by timestamp and run
  any sequence of \<open>AddActionSafe\<close> and \<open>RemoveAction\<close> calls. After every operation of the
  sequence (after the first \<open>n\<close> operations, for every \<open>n\<close>) the actions are strictly
  increasing by timestamp, and so no two of them have the same timestamp.
\<close>

theorem sort_invariant:
  assumes "strictly_sorted (Actions s)"
  shows "strictly_sorted (Actions (apply_store_ops (take n ops) s)) \<and>
         distinct (map at_ms (Actions (apply_store_ops (take n ops) s)))"
  using assms by (simp add: sorted_apply_ops strictly_sorted_distinct)

theorem sort_invariant_witness:
  "strictly_sorted (Actions store_example) \<and>
   Actions (apply_store_ops (take 3 store_example_ops) store_example) = [\<lparr>at_ms = 5, pos = 50\<rparr>, \<lparr>at_ms = 10, pos = 5\<rparr>] \<and>
   strictly_sorted (Actions (apply_store_ops (take 3 store_example_ops) store_example))"
proof -
  have h: "strictly_sorted (Actions store_example)"
    by (simp add: store_example_def strictly_sorted_def)
  have "Actions (apply_store_ops (take 3 store_example_ops) store_example) = [\<lparr>at_ms = 5, pos = 50\<rparr>, \<lparr>at_ms = 10, pos = 5\<rparr>]"
    by (simp add: store_example_def store_example_ops_def AddActionSafe_def RemoveAction_def find_if_from_def insert_at_def erase_at_def NotifyActionsChanged_def checkForInvalidatedActions_def remove_if_def getAction_def NotifySelectionChanged_def)
  with h sort_invariant [OF h, of 3 store_example_ops] show ?thesis by simp
qed

section \<open>Rejection of a duplicate timestamp\<close>

text \<open>
  Claim C5. On a timeline that is strictly increasing by timestamp, \<open>AddActionSafe a\<close> leaves
  the whole state as it is when an action with the timestamp of \<open>a\<close> is already there, and
  otherwise inserts \<open>a\<close> between the actions with a smaller and those with a greater
  timestamp, so that the order stays ascending. A second call with the same timestamp changes
  nothing, and the store then holds exactly one action with that timestamp.
\<close>

theorem AddActionSafe_spec:
  assumes "strictly_sorted (Actions s)"
  shows "((\<exists>b\<in>set (Actions s). at_ms b = at_ms a) \<longrightarrow> AddActionSafe a s = s) \<and>
         ((\<forall>b\<in>set (Actions s). at_ms b \<noteq> at_ms a) \<longrightarrow>
            Actions (AddActionSafe a s) =
              filter (\<lambda>b. at_ms b < at_ms a) (Actions s) @ a # filter (\<lambda>b. at_ms a < at_ms b) (Actions s)) \<and>
         strictly_sorted (Actions (AddActionSafe a s)) \<and>
         (at_ms a' = at_ms a \<longrightarrow>
            AddActionSafe a' (AddActionSafe a s) = AddActionSafe a s \<and>
            length (filter (\<lambda>b. at_ms b = at_ms a) (Actions (AddActionSafe a s))) = 1)"
proof -
  let ?s1 = "AddActionSafe a s"
  have sorted1: "strictly_sorted (Actions ?s1)"
    using assms by (rule sorted_AddActionSafe)
  have dup: "(\<exists>b\<in>set (Actions s). at_ms b = at_ms a) \<longrightarrow> ?s1 = s"
    using assms by (auto simp: AddActionSafe_duplicate)
  have ins: "(\<forall>b\<in>set (Actions s). at_ms b \<noteq> at_ms a) \<longrightarrow>
            Actions ?s1 = filter (\<lambda>b. at_ms b < at_ms a) (Actions s) @ a # filter (\<lambda>b. at_ms a < at_ms b) (Actions s)"
    using assms by (auto simp: Actions_AddActionSafe insert_at_filter)
  have present: "\<exists>b\<in>set (Actions ?s1). at_ms b = at_ms a"
    using assms by (auto simp: Actions_AddActionSafe insert_at_def)
  then obtain b where b: "b \<in> set (Actions ?s1)" "at_ms b = at_ms a" by blast
  have "filter (\<lambda>c. at_ms c = at_ms b) (Actions ?s1) = [b]"
    using strictly_sorted_distinct [OF sorted1] b(1) by (rule filter_key_singleton)
  then have one: "length (filter (\<lambda>c. at_ms c = at_ms a) (Actions ?s1)) = 1"
    using b(2) by simp
  have twice: "at_ms a' = at_ms a \<longrightarrow> AddActionSafe a' ?s1 = ?s1"
    using sorted1 present by (auto simp: AddActionSafe_duplicate)
  from dup ins sorted1 one twice show ?thesis by blast
qed

theorem AddActionSafe_spec_witness:
  "strictly_sorted (Actions store_example) \<and>
   AddActionSafe \<lparr>at_ms = 10, pos = 99\<rparr> store_example = store_example \<and>
   Actions (AddActionSafe \<lparr>at_ms = 1000, pos = 50\<rparr> store_example) =
     [\<lparr>at_ms = 0, pos = 0\<rparr>, \<lparr>at_ms = 10, pos = 5\<rparr>, \<lparr>at_ms = 1000, pos = 50\<rparr>] \<and>
   AddActionSafe \<lparr>at_ms = 1000, pos = 50\<rparr> (AddActionSafe \<lparr>at_ms = 1000, pos = 50\<rparr> store_example) =
     AddActionSafe \<lparr>at_ms = 1000, pos = 50\<rparr> store_example"
proof -
  have h: "strictly_sorted (Actions store_example)"
    by (simp add: store_example_def strictly_sorted_def)
  show ?thesis
    using h AddActionSafe_spec [OF h, of "\<lparr>at_ms = 10, pos = 99\<rparr>" "\<lparr>at_ms = 10, pos = 99\<rparr>"]
      AddActionSafe_spec [OF h, of "\<lparr>at_ms = 1000, pos = 50\<rparr>" "\<lparr>at_ms = 1000, pos = 50\<rparr>"]
    by (simp add: store_example_def)
qed

section \<open>The top of the undo stack\<close>

text \<open>
  Claim C9. \<open>MatchUndoTop k\<close> is true exactly when the undo stack is not empty and the kind tag
  of its top entry is \<open>k\<close>.
\<close>

theorem MatchUndoTop_iff:
  "MatchUndoTop u k \<longleftrightarrow> UndoStack u \<noteq> [] \<and> type (last (UndoStack u)) = k"
  by (simp add: MatchUndoTop_def UndoEmpty_def)

section \<open>Facts about the position query\<close>

lemma float_example:
  "fadd (to_float 0) (fmul (fdiv (to_float 500) (to_float 1000)) (to_float 100)) = 50"
  "to_float 90 = 90"
  by code_simp+


lemma loop_all_greater: "\<forall>a\<in>set xs. t < at_ms a \<Longrightarrow> GetPositionAtTime_loop xs t = None"
  by (induction xs t rule: GetPositionAtTime_loop.induct) auto





lemma lower_bound_zip:
  "length js = length xs \<Longrightarrow>
   lower_bound (zip (map at_ms xs) js) t =
     (if find_if (\<lambda>a. t \<le> at_ms a) xs < length xs
      then Some (at_ms (xs ! find_if (\<lambda>a. t \<le> at_ms a) xs), js ! find_if (\<lambda>a. t \<le> at_ms a) xs)
      else None)"
proof (induction xs arbitrary: js)
  case Nil
  then show ?case by (simp add: lower_bound_def)
next
  case (Cons x xs)
  then obtain j js' where js: "js = j # js'" "length js' = length xs"
    by (cases js) auto
  show ?case using Cons.IH [OF js(2)] js(1)
    by (simp add: lower_bound_def)
qed

lemma lower_bound_SplineUpdate:
  "lower_bound (SplineUpdate xs) t =
     (if find_if (\<lambda>a. t \<le> at_ms a) xs < length xs
      then Some (at_ms (xs ! find_if (\<lambda>a. t \<le> at_ms a) xs), find_if (\<lambda>a. t \<le> at_ms a) xs)
      else None)"
  using lower_bound_zip [of "[0..<length xs]" xs t] by (simp add: SplineUpdate_def)

lemma loop_drop_start:
  "GetPositionAtTime_loop (drop (find_if (\<lambda>a. t \<le> at_ms a) xs - 1) xs) t = GetPositionAtTime_loop xs t"
proof (induction xs)
  case Nil
  then show ?case by simp
next
  case (Cons x xs)
  show ?case
  proof (cases "t \<le> at_ms x")
    case True
    then show ?thesis by simp
  next
    case False
    show ?thesis
    proof (cases xs)
      case Nil
      then show ?thesis using False by simp
    next
      case (Cons y ys)
      then show ?thesis using False Cons.IH
        by (cases "t \<le> at_ms y") auto
    qed
  qed
qed

lemma GetPositionAtTime_scan:
  assumes "spline_consistent s" "length (Actions s) \<ge> 2"
  shows "GetPositionAtTime s t =
           (case GetPositionAtTime_loop (Actions s) t of
              Some r \<Rightarrow> r
            | None \<Rightarrow> to_float (pos (last (Actions s))))"
proof (cases "SplineNeedsUpdate s")
  case True
  moreover have "length (Actions s) \<noteq> 0" "length (Actions s) \<noteq> 1" using assms(2) by auto
  ultimately show ?thesis by (simp add: GetPositionAtTime_def)
next
  case False
  then have m: "ActionMap s = SplineUpdate (Actions s)"
    using assms(1) by (simp add: spline_consistent_def)
  have len: "length (Actions s) \<noteq> 0" "length (Actions s) \<noteq> 1" using assms(2) by auto
  let ?k = "find_if (\<lambda>a. t \<le> at_ms a) (Actions s)"
  show ?thesis
  proof (cases "?k < length (Actions s)")
    case True
    have "GetPositionAtTime_loop (drop (?k - 1) (Actions s)) t = GetPositionAtTime_loop (Actions s) t"
      by (rule loop_drop_start)
    moreover have "(if ?k > 0 then ?k - 1 else ?k) = ?k - 1" by simp
    ultimately show ?thesis using False True len m
      by (simp add: GetPositionAtTime_def lower_bound_SplineUpdate)
  next
    case True': False
    then show ?thesis using False len m
      by (simp add: GetPositionAtTime_def lower_bound_SplineUpdate)
  qed
qed

lemma strictly_sorted_split:
  "strictly_sorted (p @ a # q) \<Longrightarrow> (\<forall>x\<in>set p. at_ms x < at_ms a) \<and> (\<forall>x\<in>set q. at_ms a < at_ms x)"
  by (auto simp: strictly_sorted_def sorted_wrt_append)

section \<open>Position at a time\<close>



section \<open>The index does not change the position query\<close>

text \<open>
  Claim C4. For a timeline that is strictly increasing by timestamp and every time \<open>t\<close>,
  \<open>GetPositionAtTime t\<close> gives the same value with a valid index (\<open>SplineNeedsUpdate\<close> false
  and \<open>ActionMap\<close> built from the current actions) and with a stale one
  (\<open>SplineNeedsUpdate\<close> true, the scan from offset \<open>0\<close>). For a strictly increasing
  timeline the list that \<open>SplineUpdate\<close> builds is in the key order of the map.
\<close>

theorem index_is_optimization:
  assumes "strictly_sorted (Actions s)"
  shows "GetPositionAtTime (s\<lparr>SplineNeedsUpdate := False, ActionMap := SplineUpdate (Actions s)\<rparr>) t =
         GetPositionAtTime (s\<lparr>SplineNeedsUpdate := True\<rparr>) t"
proof (cases "length (Actions s) \<ge> 2")
  case False
  then show ?thesis by (auto simp: GetPositionAtTime_def)
next
  case True
  let ?valid = "s\<lparr>SplineNeedsUpdate := False, ActionMap := SplineUpdate (Actions s)\<rparr>"
  let ?stale = "s\<lparr>SplineNeedsUpdate := True\<rparr>"
  have "spline_consistent ?valid" "spline_consistent ?stale"
    by (simp_all add: spline_consistent_def)
  moreover have "length (Actions ?valid) \<ge> 2" "length (Actions ?stale) \<ge> 2"
    using True by simp_all
  ultimately show ?thesis
    using GetPositionAtTime_scan [of ?valid t] GetPositionAtTime_scan [of ?stale t]
    by (simp split: option.split)
qed

theorem index_is_optimization_witness:
  "strictly_sorted (Actions ramp_script) \<and>
   GetPositionAtTime (ramp_script\<lparr>SplineNeedsUpdate := False, ActionMap := SplineUpdate (Actions ramp_script)\<rparr>) 500 = 50 \<and>
   GetPositionAtTime (ramp_script\<lparr>SplineNeedsUpdate := True\<rparr>) 500 = 50"
proof -
  have h: "strictly_sorted (Actions ramp_script)"
    by (simp add: ramp_script_def strictly_sorted_def)
  have "GetPositionAtTime (ramp_script\<lparr>SplineNeedsUpdate := True\<rparr>) 500 = 50"
    by (simp add: ramp_script_def GetPositionAtTime_def float_example s32_def)
  with h index_is_optimization [OF h, of 500] show ?thesis by simp
qed

section \<open>A time before the first action\<close>

text \<open>
  Claim C10. For a timeline of at least two actions, strictly increasing by timestamp, and a
  time \<open>t\<close> before the timestamp of the first action, \<open>GetPositionAtTime t\<close> is the
  position of the last action, converted to float (in the example of the witness \<open>90\<close>,
  where the first action has position \<open>10\<close>).
\<close>

theorem before_first_returns_last:
  assumes "2 \<le> length (Actions s)" and "strictly_sorted (Actions s)" and "spline_consistent s"
    and "t < at_ms (hd (Actions s))"
  shows "GetPositionAtTime s t = to_float (pos (last (Actions s)))"
proof -
  obtain a q where aq: "Actions s = a # q" using assms(1) by (cases "Actions s") auto
  have "\<forall>x\<in>set q. at_ms a < at_ms x"
    using strictly_sorted_split [of "[]" a q] assms(2) aq by simp
  then have "\<forall>x\<in>set (Actions s). t < at_ms x" using assms(4) aq by auto
  then have "GetPositionAtTime_loop (Actions s) t = None" by (rule loop_all_greater)
  then show ?thesis using GetPositionAtTime_scan [OF assms(3) assms(1), of t] by simp
qed

theorem before_first_returns_last_witness:
  "2 \<le> length (Actions late_script) \<and> strictly_sorted (Actions late_script) \<and>
   spline_consistent late_script \<and> 50 < at_ms (hd (Actions late_script)) \<and>
   GetPositionAtTime late_script 50 = 90 \<and> pos (hd (Actions late_script)) = 10"
proof -
  have h1: "2 \<le> length (Actions late_script)" by (simp add: late_script_def)
  have h2: "strictly_sorted (Actions late_script)"
    by (simp add: late_script_def strictly_sorted_def)
  have h3: "spline_consistent late_script"
    by (simp add: late_script_def spline_consistent_def SplineUpdate_def upt_rec)
  have h4: "50 < at_ms (hd (Actions late_script))" by (simp add: late_script_def)
  show ?thesis
    using h1 h2 h3 h4 before_first_returns_last [OF h1 h2 h3 h4]
    by (simp add: late_script_def float_example)
qed

section \<open>The selection after a removal\<close>

lemmas eval_defs = RemoveActions_def RemoveAction_def RemoveActionsInInterval_def
  checkForInvalidatedActions_def remove_if_def getAction_def erase_at_def insert_at_def
  NotifyActionsChanged_def NotifySelectionChanged_def ClearSelection_def sortSelection_def
  ToggleSelection_def SelectTime_def

text \<open>
  Claim C2. The claim says that after \<open>RemoveActions\<close> or \<open>RemoveActionsInInterval\<close> every
  selected action is in the store. With three actions, all selected, and the last two removed
  at once, the selection keeps \<open>(200, 100)\<close>, which is no longer in the store:
  \<open>checkForInvalidatedActions\<close> erases the single element at the offset that
  \<open>std::remove_if\<close> returns and not the range from there to the end.
\<close>

theorem selection_keeps_removed_action:
  "Actions (RemoveActions [\<lparr>at_ms = 100, pos = 50\<rparr>, \<lparr>at_ms = 200, pos = 100\<rparr>] three_selected) =
     [\<lparr>at_ms = 0, pos = 0\<rparr>] \<and>
   selection (RemoveActions [\<lparr>at_ms = 100, pos = 50\<rparr>, \<lparr>at_ms = 200, pos = 100\<rparr>] three_selected) =
     [\<lparr>at_ms = 0, pos = 0\<rparr>, \<lparr>at_ms = 200, pos = 100\<rparr>] \<and>
   Actions (RemoveActionsInInterval 100 200 three_selected) = [\<lparr>at_ms = 0, pos = 0\<rparr>] \<and>
   selection (RemoveActionsInInterval 100 200 three_selected) =
     [\<lparr>at_ms = 0, pos = 0\<rparr>, \<lparr>at_ms = 200, pos = 100\<rparr>]"
  by (simp add: three_selected_def eval_defs)

section \<open>Selection by time interval\<close>

text \<open>
  Claim C7 says that with \<open>clear\<close> false every action of the interval is selected afterwards
  and that selected actions stay selected. The action \<open>(100, 50)\<close> lies in \<open>[0, 200]\<close> and is
  selected; after \<open>SelectTime 0 200 False\<close> it is not, because the loop calls
  \<open>ToggleSelection\<close>.
\<close>

theorem SelectTime_merge_counterexample:
  "\<lparr>at_ms = 100, pos = 50\<rparr> \<in> set (Actions middle_selected) \<and>
   \<lparr>at_ms = 100, pos = 50\<rparr> \<in> set (selection middle_selected) \<and>
   (0::int) \<le> 100 \<and> (100::int) \<le> 200 \<and>
   selection (SelectTime 0 200 False middle_selected) =
     [\<lparr>at_ms = 0, pos = 0\<rparr>, \<lparr>at_ms = 200, pos = 100\<rparr>] \<and>
   \<lparr>at_ms = 100, pos = 50\<rparr> \<notin> set (selection (SelectTime 0 200 False middle_selected))"
  by (simp add: middle_selected_def eval_defs)

lemma selection_Toggle:
  "selection (snd (ToggleSelection a s)) =
     (if a \<in> set (selection s) then remove1 a (selection s) else selection s @ [a])"
  by (auto simp: ToggleSelection_def Let_def NotifySelectionChanged_def erase_at_find find_if_end_iff)

lemma Actions_Toggle [simp]: "Actions (snd (ToggleSelection a s)) = Actions s"
  by (simp add: ToggleSelection_def Let_def NotifySelectionChanged_def)

lemma SelectTime_loop_fold:
  "strictly_sorted xs \<Longrightarrow>
   SelectTime_loop xs from_ms to_ms s =
     fold (\<lambda>a s. snd (ToggleSelection a s)) (filter (in_interval from_ms to_ms) xs) s"
proof (induction xs arbitrary: s)
  case Nil
  then show ?case by simp
next
  case (Cons x xs)
  have srt: "strictly_sorted xs" and gt: "\<forall>y\<in>set xs. at_ms x < at_ms y"
    using Cons.prems by (simp_all add: strictly_sorted_Cons)
  show ?case
  proof (cases "in_interval from_ms to_ms x")
    case True
    then have "at_ms x \<ge> from_ms \<and> at_ms x \<le> to_ms" by (simp add: in_interval_def)
    then show ?thesis using True Cons.IH [OF srt] by simp
  next
    case False
    then have nx: "\<not> (at_ms x \<ge> from_ms \<and> at_ms x \<le> to_ms)" by (simp add: in_interval_def)
    show ?thesis
    proof (cases "at_ms x > to_ms")
      case True
      then have "\<forall>y\<in>set xs. \<not> in_interval from_ms to_ms y"
        using gt by (auto simp: in_interval_def)
      then have "filter (in_interval from_ms to_ms) xs = []" by (simp add: filter_empty_conv)
      then show ?thesis using True False nx by simp
    next
      case notgt: False
      then show ?thesis using False nx Cons.IH [OF srt] by simp
    qed
  qed
qed

lemma fold_toggle_fresh:
  "distinct ys \<Longrightarrow> set ys \<inter> set (selection s) = {} \<Longrightarrow>
   selection (fold (\<lambda>a s. snd (ToggleSelection a s)) ys s) = selection s @ ys"
proof (induction ys arbitrary: s)
  case Nil
  then show ?case by simp
next
  case (Cons y ys)
  have "selection (snd (ToggleSelection y s)) = selection s @ [y]"
    using Cons.prems(2) by (simp add: selection_Toggle)
  moreover have "distinct ys" "set ys \<inter> set (selection s @ [y]) = {}"
    using Cons.prems by auto
  ultimately show ?case using Cons.IH [of "snd (ToggleSelection y s)"] by simp
qed

lemma fold_toggle_set:
  "distinct ys \<Longrightarrow> distinct (selection s) \<Longrightarrow>
   distinct (selection (fold (\<lambda>a s. snd (ToggleSelection a s)) ys s)) \<and>
   set (selection (fold (\<lambda>a s. snd (ToggleSelection a s)) ys s)) =
     (set (selection s) - set ys) \<union> (set ys - set (selection s))"
proof (induction ys arbitrary: s)
  case Nil
  then show ?case by simp
next
  case (Cons y ys)
  let ?s1 = "snd (ToggleSelection y s)"
  have d1: "distinct (selection ?s1)"
    using Cons.prems(2) by (simp add: selection_Toggle)
  have s1: "set (selection ?s1) = (if y \<in> set (selection s) then set (selection s) - {y} else insert y (set (selection s)))"
    using Cons.prems(2) by (simp add: selection_Toggle)
  have dy: "distinct ys" "y \<notin> set ys" using Cons.prems(1) by simp_all
  from Cons.IH [OF dy(1) d1] s1 dy(2) show ?case by auto
qed

lemma strictly_sorted_distinct_actions: "strictly_sorted xs \<Longrightarrow> distinct xs"
  using strictly_sorted_distinct [of xs] by (simp add: distinct_map)

text \<open>
  Claim C7, as amended. On a timeline that is strictly increasing by timestamp,
  \<open>SelectTime from to True\<close> leaves as the selection exactly the actions with a timestamp in
  \<open>[from, to]\<close>. \<open>SelectTime from to False\<close>, on a selection without repetitions, toggles each
  action of the interval: afterwards an action is selected exactly when it was selected and
  lies outside the interval, or lies in the interval and was not selected; and the selection
  is sorted by timestamp.
\<close>

theorem SelectTime_toggles:
  assumes "strictly_sorted (Actions s)"
  shows "selection (SelectTime from_ms to_ms True s) =
           filter (in_interval from_ms to_ms) (Actions s) \<and>
         (distinct (selection s) \<longrightarrow>
            set (selection (SelectTime from_ms to_ms False s)) =
              (set (selection s) - {a \<in> set (Actions s). in_interval from_ms to_ms a}) \<union>
              ({a \<in> set (Actions s). in_interval from_ms to_ms a} - set (selection s)) \<and>
            sorted (map at_ms (selection (SelectTime from_ms to_ms False s))) \<and>
            distinct (selection (SelectTime from_ms to_ms False s)))"
proof (intro conjI impI)
  let ?I = "filter (in_interval from_ms to_ms) (Actions s)"
  have dI: "distinct ?I"
    using assms by (simp add: strictly_sorted_distinct_actions)
  have "selection (fold (\<lambda>a s. snd (ToggleSelection a s)) ?I (ClearSelection s)) = ?I"
    using fold_toggle_fresh [OF dI, of "ClearSelection s"] by (simp add: ClearSelection_def)
  then show "selection (SelectTime from_ms to_ms True s) = ?I"
    using assms
    by (simp add: SelectTime_def SelectTime_loop_fold ClearSelection_def NotifySelectionChanged_def Let_def)
next
  let ?I = "filter (in_interval from_ms to_ms) (Actions s)"
  let ?t = "fold (\<lambda>a s. snd (ToggleSelection a s)) ?I s"
  assume d: "distinct (selection s)"
  have dI: "distinct ?I"
    using assms by (simp add: strictly_sorted_distinct_actions)
  have sel: "selection (SelectTime from_ms to_ms False s) = sort_key at_ms (selection ?t)"
    using assms
    by (simp add: SelectTime_def SelectTime_loop_fold sortSelection_def NotifySelectionChanged_def Let_def)
  note t = fold_toggle_set [OF dI d]
  show "set (selection (SelectTime from_ms to_ms False s)) =
              (set (selection s) - {a \<in> set (Actions s). in_interval from_ms to_ms a}) \<union>
              ({a \<in> set (Actions s). in_interval from_ms to_ms a} - set (selection s))"
    using t sel by simp
  show "sorted (map at_ms (selection (SelectTime from_ms to_ms False s)))"
    using sel by simp
  show "distinct (selection (SelectTime from_ms to_ms False s))"
    using t sel by simp
qed

theorem SelectTime_toggles_witness:
  "strictly_sorted (Actions middle_selected) \<and> distinct (selection middle_selected) \<and>
   selection (SelectTime 0 100 True middle_selected) =
     [\<lparr>at_ms = 0, pos = 0\<rparr>, \<lparr>at_ms = 100, pos = 50\<rparr>] \<and>
   set (selection (SelectTime 100 200 False middle_selected)) = {\<lparr>at_ms = 200, pos = 100\<rparr>}"
proof -
  have h: "strictly_sorted (Actions middle_selected)"
    by (simp add: middle_selected_def strictly_sorted_def)
  have d: "distinct (selection middle_selected)"
    by (simp add: middle_selected_def)
  have i1: "filter (in_interval 0 100) (Actions middle_selected) =
              [\<lparr>at_ms = 0, pos = 0\<rparr>, \<lparr>at_ms = 100, pos = 50\<rparr>]"
    by (simp add: middle_selected_def in_interval_def)
  have i2: "{a \<in> set (Actions middle_selected). in_interval 100 200 a} =
              {\<lparr>at_ms = 100, pos = 50\<rparr>, \<lparr>at_ms = 200, pos = 100\<rparr>}"
    by (auto simp: middle_selected_def in_interval_def)
  have s: "set (selection middle_selected) = {\<lparr>at_ms = 100, pos = 50\<rparr>}"
    by (simp add: middle_selected_def)
  show ?thesis
    using h d SelectTime_toggles [OF h, of 0 100] SelectTime_toggles [OF h, of 100 200]
    unfolding i1 i2 s by auto
qed

section \<open>Facts about the nearest-action query\<close>

lemma u32_id: "0 \<le> x \<Longrightarrow> x < 2 ^ 32 \<Longrightarrow> u32 x = x"
  by (simp add: u32_def)

lemma s32_u32_id: "- (2 ^ 31) \<le> x \<Longrightarrow> x < 2 ^ 31 \<Longrightarrow> s32 (u32 x) = x"
proof -
  assume a: "- (2 ^ 31) \<le> x" "x < 2 ^ 31"
  have "(x mod 2 ^ 32 + 2 ^ 31) mod 2 ^ 32 = (x + 2 ^ 31) mod (2 ^ 32 :: int)"
    by (simp add: mod_add_left_eq)
  also have "\<dots> = x + 2 ^ 31" using a by simp
  finally show ?thesis by (simp add: s32_def u32_def)
qed

lemma loop_step:
  assumes "ms_range (at_ms a)" "ms_range t" "ms_range e"
  shows "getActionAtTime_loop (a # rest) t e se sa =
     (if at_ms a > t + e div 2 then sa
      else if \<bar>t - at_ms a\<bar> \<le> e
           then (if \<bar>t - at_ms a\<bar> \<le> se then getActionAtTime_loop rest t e \<bar>t - at_ms a\<bar> (Some a) else sa)
           else getActionAtTime_loop rest t e se sa)"
proof -
  have 1: "u32 (at_ms a) = at_ms a" using assms by (simp add: u32_id ms_range_def)
  have 2: "u32 t = t" using assms by (simp add: u32_id ms_range_def)
  have "0 \<le> t + e div 2 \<and> t + e div 2 < 2 ^ 32" using assms unfolding ms_range_def by (simp; presburger)
  then have 3: "u32 (t + e div 2) = t + e div 2" by (simp add: u32_id)
  have "0 \<le> \<bar>t - at_ms a\<bar> \<and> \<bar>t - at_ms a\<bar> < 2 ^ 32" using assms unfolding ms_range_def by (simp; linarith)
  then have 4: "u32 \<bar>t - at_ms a\<bar> = \<bar>t - at_ms a\<bar>" by (simp add: u32_id)
  show ?thesis by (simp add: 1 2 3 4 Let_def)
qed

lemma half_tolerance: "ms_range e \<Longrightarrow> 0 \<le> e div 2 \<and> e div 2 \<le> e"
  unfolding ms_range_def by (simp; presburger)

lemma loop_skip_early:
  assumes "\<forall>a\<in>set xs. ms_range (at_ms a)" "ms_range t" "ms_range e"
  shows "getActionAtTime_loop xs t e se sa =
         getActionAtTime_loop (dropWhile (\<lambda>a. at_ms a < t - e) xs) t e se sa"
  using assms(1)
proof (induction xs)
  case Nil
  then show ?case by simp
next
  case (Cons x xs)
  show ?case
  proof (cases "at_ms x < t - e")
    case True
    have "0 \<le> e div 2" using half_tolerance [OF assms(3)] by blast
    with True have "\<not> at_ms x > t + e div 2" "\<not> \<bar>t - at_ms x\<bar> \<le> e"
      using assms(3) by (auto simp: ms_range_def)
    then show ?thesis using True Cons assms(2,3)
      by (simp add: loop_step del: getActionAtTime_loop.simps(2))
  next
    case False
    then show ?thesis by simp
  qed
qed

lemma loop_approach:
  assumes "ms_range t" "ms_range e"
  shows "xs \<noteq> [] \<Longrightarrow> strictly_sorted xs \<Longrightarrow> \<forall>a\<in>set xs. ms_range (at_ms a) \<Longrightarrow>
         \<forall>a\<in>set xs. t - e \<le> at_ms a \<and> at_ms a \<le> t \<Longrightarrow> t - at_ms (hd xs) \<le> se \<Longrightarrow>
         getActionAtTime_loop (xs @ ys) t e se sa =
         getActionAtTime_loop ys t e (t - at_ms (last xs)) (Some (last xs))"
proof (induction xs arbitrary: se sa)
  case Nil
  then show ?case by simp
next
  case (Cons x xs)
  have x: "ms_range (at_ms x)" "t - e \<le> at_ms x" "at_ms x \<le> t" "t - at_ms x \<le> se"
    using Cons.prems by simp_all
  have "0 \<le> e div 2" using half_tolerance [OF assms(2)] by blast
  then have c: "\<not> at_ms x > t + e div 2" "\<bar>t - at_ms x\<bar> \<le> e" "\<bar>t - at_ms x\<bar> \<le> se" "\<bar>t - at_ms x\<bar> = t - at_ms x"
    using x by auto
  have step: "getActionAtTime_loop ((x # xs) @ ys) t e se sa =
              getActionAtTime_loop (xs @ ys) t e (t - at_ms x) (Some x)"
    using c x(1) assms by (simp add: loop_step del: getActionAtTime_loop.simps(2))
  show ?case
  proof (cases xs)
    case Nil
    then show ?thesis using step by simp
  next
    case (Cons y zs)
    have "at_ms x < at_ms (hd xs)"
      using Cons.prems(2) Cons by (simp add: strictly_sorted_Cons)
    then have "t - at_ms (hd xs) \<le> t - at_ms x" by simp
    moreover have "xs \<noteq> []" "strictly_sorted xs" "\<forall>a\<in>set xs. ms_range (at_ms a)"
      "\<forall>a\<in>set xs. t - e \<le> at_ms a \<and> at_ms a \<le> t"
      using Cons.prems Cons by (simp_all add: strictly_sorted_Cons)
    ultimately have "getActionAtTime_loop (xs @ ys) t e (t - at_ms x) (Some x) =
         getActionAtTime_loop ys t e (t - at_ms (last xs)) (Some (last xs))"
      by (rule Cons.IH [rotated -1])
    then show ?thesis using step Cons by simp
  qed
qed

lemma loop_after:
  assumes "ms_range t" "ms_range e" "strictly_sorted ys" "\<forall>a\<in>set ys. ms_range (at_ms a)"
    "\<forall>a\<in>set ys. t < at_ms a"
  shows "getActionAtTime_loop ys t e se sa =
         (case ys of [] \<Rightarrow> sa
          | c # _ \<Rightarrow> if at_ms c \<le> t + e div 2 \<and> at_ms c - t \<le> se then Some c else sa)"
proof (cases ys)
  case Nil
  then show ?thesis by simp
next
  case (Cons c rest)
  have c: "ms_range (at_ms c)" "t < at_ms c" using assms(4,5) Cons by simp_all
  have e2: "0 \<le> e div 2" "e div 2 \<le> e" using half_tolerance [OF assms(2)] by blast+
  show ?thesis
  proof (cases "at_ms c \<le> t + e div 2 \<and> at_ms c - t \<le> se")
    case False
    then show ?thesis using Cons c e2 assms(1,2)
      by (auto simp: loop_step simp del: getActionAtTime_loop.simps(2))
  next
    case True
    have err: "\<bar>t - at_ms c\<bar> = at_ms c - t" "\<bar>t - at_ms c\<bar> \<le> e" using c True e2 by auto
    have step: "getActionAtTime_loop ys t e se sa = getActionAtTime_loop rest t e (at_ms c - t) (Some c)"
      using Cons c True err assms(1,2) by (simp add: loop_step del: getActionAtTime_loop.simps(2))
    have "getActionAtTime_loop rest t e (at_ms c - t) (Some c) = Some c"
    proof (cases rest)
      case Nil
      then show ?thesis by simp
    next
      case (Cons d rest')
      have d: "ms_range (at_ms d)" "at_ms c < at_ms d"
        using assms(3,4) \<open>ys = c # rest\<close> Cons by (simp_all add: strictly_sorted_Cons)
      then show ?thesis using Cons c e2 assms(1,2)
        by (auto simp: loop_step simp del: getActionAtTime_loop.simps(2))
    qed
    then show ?thesis using step Cons True by simp
  qed
qed

lemma strictly_sorted_filter: "strictly_sorted xs \<Longrightarrow> strictly_sorted (filter P xs)"
  by (simp add: strictly_sorted_def sorted_wrt_map sorted_wrt_filter)

lemma dropWhile_less_filter:
  "strictly_sorted xs \<Longrightarrow> dropWhile (\<lambda>a. at_ms a < k) xs = filter (\<lambda>a. k \<le> at_ms a) xs"
proof (induction xs)
  case Nil
  then show ?case by simp
next
  case (Cons x xs)
  show ?case
  proof (cases "at_ms x < k")
    case True
    then show ?thesis using Cons by (simp add: strictly_sorted_Cons)
  next
    case False
    then have "\<forall>y\<in>set xs. k \<le> at_ms y" using Cons.prems by (auto simp: strictly_sorted_Cons)
    then have "filter (\<lambda>a. k \<le> at_ms a) xs = xs" by (simp add: filter_id_conv)
    then show ?thesis using False by simp
  qed
qed

lemma takeWhile_le_filter:
  "strictly_sorted xs \<Longrightarrow> takeWhile (\<lambda>a. at_ms a \<le> k) xs = filter (\<lambda>a. at_ms a \<le> k) xs"
proof (induction xs)
  case Nil
  then show ?case by simp
next
  case (Cons x xs)
  show ?case
  proof (cases "at_ms x \<le> k")
    case True
    then show ?thesis using Cons by (simp add: strictly_sorted_Cons)
  next
    case False
    then have "\<forall>y\<in>set xs. \<not> at_ms y \<le> k" using Cons.prems by (auto simp: strictly_sorted_Cons)
    then have "filter (\<lambda>a. at_ms a \<le> k) xs = []" by (simp add: filter_empty_conv)
    then show ?thesis using False by simp
  qed
qed

lemma dropWhile_le_filter:
  "strictly_sorted xs \<Longrightarrow> dropWhile (\<lambda>a. at_ms a \<le> k) xs = filter (\<lambda>a. k < at_ms a) xs"
proof (induction xs)
  case Nil
  then show ?case by simp
next
  case (Cons x xs)
  show ?case
  proof (cases "at_ms x \<le> k")
    case True
    then show ?thesis using Cons by (simp add: strictly_sorted_Cons)
  next
    case False
    then have "\<forall>y\<in>set xs. k < at_ms y" using Cons.prems by (auto simp: strictly_sorted_Cons)
    then have "filter (\<lambda>a. k < at_ms a) xs = xs" by (simp add: filter_id_conv)
    then show ?thesis using False by simp
  qed
qed

lemma strictly_sorted_last:
  "strictly_sorted xs \<Longrightarrow> xs \<noteq> [] \<Longrightarrow> \<forall>b\<in>set xs. at_ms b \<le> at_ms (last xs)"
proof (induction xs)
  case Nil
  then show ?case by simp
next
  case (Cons x xs)
  show ?case
  proof (cases "xs = []")
    case True
    then show ?thesis by simp
  next
    case False
    then have "last xs \<in> set xs" by simp
    then have "at_ms x < at_ms (last xs)" using Cons.prems(1) by (simp add: strictly_sorted_Cons)
    moreover have "\<forall>b\<in>set xs. at_ms b \<le> at_ms (last xs)"
      using Cons.IH Cons.prems(1) False by (simp add: strictly_sorted_Cons)
    ultimately show ?thesis using False by simp
  qed
qed

lemma getActionAtTime_start:
  assumes "\<forall>a\<in>set xs. ms_range (at_ms a)" "ms_range t" "ms_range e"
    and "SplineNeedsUpdate s \<or> ActionMap s = SplineUpdate xs"
  shows "getActionAtTime s xs t e =
         getActionAtTime_loop (dropWhile (\<lambda>a. at_ms a < t - e) xs) t e INT32_MAX None"
proof (cases "SplineNeedsUpdate s")
  case True
  then show ?thesis
    using loop_skip_early [OF assms(1-3)] by (simp add: getActionAtTime_def)
next
  case False
  then have m: "ActionMap s = SplineUpdate xs" using assms(4) by simp
  have "u32 t = t" using assms(2) by (simp add: u32_id ms_range_def)
  moreover have "- (2 ^ 31) \<le> t - e \<and> t - e < 2 ^ 31"
    using assms(2,3) by (simp add: ms_range_def)
  ultimately have key: "s32 (u32 (u32 t - e)) = t - e" by (simp add: s32_u32_id)
  let ?k = "find_if (\<lambda>a. t - e \<le> at_ms a) xs"
  have pred: "(\<lambda>a. \<not> t - e \<le> at_ms a) = (\<lambda>a. at_ms a < t - e)" by (auto simp: fun_eq_iff)
  show ?thesis
  proof (cases "?k < length xs")
    case True
    have "drop ?k xs = dropWhile (\<lambda>a. at_ms a < t - e) xs"
      using drop_find_if [of "\<lambda>a. t - e \<le> at_ms a" xs] by (simp add: pred)
    then show ?thesis using False True m key
      by (simp add: getActionAtTime_def lower_bound_SplineUpdate)
  next
    case notfound: False
    then show ?thesis using False m key loop_skip_early [OF assms(1-3)]
      by (simp add: getActionAtTime_def lower_bound_SplineUpdate)
  qed
qed

lemma INT32_MAX_bound: "ms_range x \<Longrightarrow> ms_range t \<Longrightarrow> x - t \<le> INT32_MAX \<and> t - x \<le> INT32_MAX"
  by (simp add: ms_range_def INT32_MAX_def)

section \<open>Nearest action within a tolerance\<close>

text \<open>
  Claim C6 says that \<open>getActionAtTime\<close> returns the action nearest to \<open>t\<close> among all those
  within \<open>maxErrorMs\<close>, the first one of two equidistant actions, and null only when no
  action is within the tolerance. For the single action at \<open>100\<close>, \<open>t = 0\<close> and a tolerance
  of \<open>150\<close> the result is null, although the action is \<open>100\<close> away: the loop stops at the
  first action later than \<open>t + maxErrorMs / 2\<close>. For the actions at \<open>0\<close> and \<open>20\<close> and
  \<open>t = 10\<close> the result is the action at \<open>20\<close>, the later of the two equidistant ones: the
  comparison with the smallest error so far is \<open>\<le>\<close>.
\<close>

theorem getActionAtTime_counterexample:
  "getActionAtTime stale_script [\<lparr>at_ms = 100, pos = 0\<rparr>] 0 150 = None \<and>
   \<bar>0 - at_ms \<lparr>at_ms = 100, pos = 0\<rparr>\<bar> \<le> 150 \<and>
   \<not> actionNear_spec [\<lparr>at_ms = 100, pos = 0\<rparr>] 0 150
       (getActionAtTime stale_script [\<lparr>at_ms = 100, pos = 0\<rparr>] 0 150) \<and>
   getActionAtTime stale_script [\<lparr>at_ms = 0, pos = 10\<rparr>, \<lparr>at_ms = 20, pos = 90\<rparr>] 10 100 =
     Some \<lparr>at_ms = 20, pos = 90\<rparr> \<and>
   \<not> actionNear_spec [\<lparr>at_ms = 0, pos = 10\<rparr>, \<lparr>at_ms = 20, pos = 90\<rparr>] 10 100
       (getActionAtTime stale_script [\<lparr>at_ms = 0, pos = 10\<rparr>, \<lparr>at_ms = 20, pos = 90\<rparr>] 10 100)"
  by (simp add: getActionAtTime_def stale_script_def actionNear_spec_def u32_def INT32_MAX_def)

text \<open>
  Claim C6, as amended. Let the actions be strictly increasing by timestamp, let the
  timestamps, \<open>t\<close> and \<open>maxErrorMs\<close> be non-negative \<open>int32_t\<close> values, and let the index be
  stale or built from these actions. Then \<open>getActionAtTime\<close> returns the action that
  minimizes \<open>|t - at|\<close> among the actions with
  \<open>t - maxErrorMs \<le> at \<le> t + maxErrorMs / 2\<close> (integer division); of two equidistant
  actions it returns the later one; and it returns null exactly when no action has its
  timestamp in that window.
\<close>

theorem getActionAtTime_window:
  assumes "strictly_sorted actions" and "\<forall>a\<in>set actions. ms_range (at_ms a)"
    and "ms_range t" and "ms_range e"
    and "SplineNeedsUpdate s \<or> ActionMap s = SplineUpdate actions"
  shows "case getActionAtTime s actions t e of
           None \<Rightarrow> \<forall>a\<in>set actions. \<not> in_window t e a
         | Some r \<Rightarrow>
             r \<in> set actions \<and> in_window t e r \<and>
             (\<forall>b\<in>set actions. in_window t e b \<longrightarrow>
                \<bar>t - at_ms r\<bar> \<le> \<bar>t - at_ms b\<bar> \<and>
                (\<bar>t - at_ms b\<bar> = \<bar>t - at_ms r\<bar> \<longrightarrow> at_ms b \<le> at_ms r))"
proof -
  define ys where "ys = filter (\<lambda>a. t - e \<le> at_ms a) actions"
  define B where "B = filter (\<lambda>a. at_ms a \<le> t) ys"
  define C where "C = filter (\<lambda>a. t < at_ms a) ys"
  have e0: "0 \<le> e" "0 \<le> e div 2" "e div 2 \<le> e"
    using assms(4) half_tolerance [OF assms(4)] by (simp_all add: ms_range_def)
  have sys: "strictly_sorted ys" unfolding ys_def using assms(1) by (rule strictly_sorted_filter)
  have sB: "strictly_sorted B" unfolding B_def using sys by (rule strictly_sorted_filter)
  have sC: "strictly_sorted C" unfolding C_def using sys by (rule strictly_sorted_filter)
  have split: "ys = B @ C"
    unfolding B_def C_def
    using takeWhile_le_filter [OF sys, of t] dropWhile_le_filter [OF sys, of t]
      takeWhile_dropWhile_id [of "\<lambda>a. at_ms a \<le> t" ys] by simp
  have start: "getActionAtTime s actions t e = getActionAtTime_loop (B @ C) t e INT32_MAX None"
    using getActionAtTime_start [OF assms(2-5)] dropWhile_less_filter [OF assms(1), of "t - e"] split
    by (simp add: ys_def)
  have setB: "set B = {a \<in> set actions. t - e \<le> at_ms a \<and> at_ms a \<le> t}"
    unfolding B_def ys_def by auto
  have setC: "set C = {a \<in> set actions. t < at_ms a}"
    unfolding C_def ys_def using e0(1) by auto
  have rB: "\<forall>a\<in>set B. ms_range (at_ms a)" and rC: "\<forall>a\<in>set C. ms_range (at_ms a)"
    using assms(2) setB setC by auto
  have wB: "\<forall>a\<in>set B. t - e \<le> at_ms a \<and> at_ms a \<le> t" using setB by auto
  have wC: "\<forall>a\<in>set C. t < at_ms a" using setC by auto
  have after: "\<And>se sa. getActionAtTime_loop C t e se sa =
         (case C of [] \<Rightarrow> sa
          | c # _ \<Rightarrow> if at_ms c \<le> t + e div 2 \<and> at_ms c - t \<le> se then Some c else sa)"
    using loop_after [OF assms(3,4) sC rC wC] .
  have mem: "\<And>a. a \<in> set actions \<Longrightarrow> in_window t e a \<Longrightarrow> a \<in> set B \<or> a \<in> set C"
    using setB setC by (auto simp: in_window_def)
  show ?thesis
  proof (cases "B = []")
    case True
    show ?thesis
    proof (cases C)
      case Nil
      then have "getActionAtTime s actions t e = None" using start True after by simp
      moreover have "\<forall>a\<in>set actions. \<not> in_window t e a" using mem True Nil by auto
      ultimately show ?thesis by simp
    next
      case (Cons c C')
      have c: "c \<in> set actions" "t < at_ms c" "ms_range (at_ms c)"
        using setC rC Cons by auto
      have cmin: "\<forall>b\<in>set C. at_ms c \<le> at_ms b"
        using sC Cons by (auto simp: strictly_sorted_Cons)
      have le: "at_ms c - t \<le> INT32_MAX" using INT32_MAX_bound [OF c(3) assms(3)] by simp
      show ?thesis
      proof (cases "at_ms c \<le> t + e div 2")
        case inw: True
        then have "getActionAtTime s actions t e = Some c"
          using start True after Cons le by simp
        moreover have "in_window t e c" using inw c e0 by (simp add: in_window_def)
        moreover have "\<forall>b\<in>set actions. in_window t e b \<longrightarrow>
                \<bar>t - at_ms c\<bar> \<le> \<bar>t - at_ms b\<bar> \<and>
                (\<bar>t - at_ms b\<bar> = \<bar>t - at_ms c\<bar> \<longrightarrow> at_ms b \<le> at_ms c)"
          using mem True cmin wC c(2) by fastforce
        ultimately show ?thesis using c(1) by simp
      next
        case out: False
        then have "getActionAtTime s actions t e = None"
          using start True after Cons by simp
        moreover have "\<forall>a\<in>set actions. \<not> in_window t e a"
          using mem True cmin out by (fastforce simp: in_window_def)
        ultimately show ?thesis by simp
      qed
    qed
  next
    case False
    define p where "p = last B"
    have p: "p \<in> set B" "\<forall>b\<in>set B. at_ms b \<le> at_ms p"
      using False strictly_sorted_last [OF sB False] by (simp_all add: p_def)
    have pw: "p \<in> set actions" "t - e \<le> at_ms p" "at_ms p \<le> t" "ms_range (at_ms p)"
      using p(1) setB rB by auto
    have pin: "in_window t e p" using pw e0 by (simp add: in_window_def)
    have hd_le: "t - at_ms (hd B) \<le> INT32_MAX"
      using INT32_MAX_bound [of "at_ms (hd B)" t] rB False assms(3) by simp
    have approach: "getActionAtTime_loop (B @ C) t e INT32_MAX None =
                    getActionAtTime_loop C t e (t - at_ms p) (Some p)"
      unfolding p_def using loop_approach [OF assms(3,4) False sB rB wB hd_le] .
    show ?thesis
    proof (cases C)
      case Nil
      then have "getActionAtTime s actions t e = Some p" using start approach after by simp
      moreover have "\<forall>b\<in>set actions. in_window t e b \<longrightarrow>
                \<bar>t - at_ms p\<bar> \<le> \<bar>t - at_ms b\<bar> \<and>
                (\<bar>t - at_ms b\<bar> = \<bar>t - at_ms p\<bar> \<longrightarrow> at_ms b \<le> at_ms p)"
        using mem Nil p(2) wB pw(3) by fastforce
      ultimately show ?thesis using pw(1) pin by simp
    next
      case (Cons c C')
      have c: "c \<in> set actions" "t < at_ms c" "ms_range (at_ms c)"
        using setC rC Cons by auto
      have cmin: "\<forall>b\<in>set C. at_ms c \<le> at_ms b"
        using sC Cons by (auto simp: strictly_sorted_Cons)
      define ok where "ok \<longleftrightarrow> at_ms c \<le> t + e div 2 \<and> at_ms c - t \<le> t - at_ms p"
      have res: "getActionAtTime s actions t e = (if ok then Some c else Some p)"
        unfolding ok_def using start approach after Cons by simp
      show ?thesis
      proof (cases ok)
        case okT: True
        then have True: "at_ms c \<le> t + e div 2 \<and> at_ms c - t \<le> t - at_ms p" by (simp add: ok_def)
        have "getActionAtTime s actions t e = Some c"
          using res okT by simp
        moreover have "in_window t e c" using True c e0 by (simp add: in_window_def)
        moreover have "\<forall>b\<in>set actions. in_window t e b \<longrightarrow>
                \<bar>t - at_ms c\<bar> \<le> \<bar>t - at_ms b\<bar> \<and>
                (\<bar>t - at_ms b\<bar> = \<bar>t - at_ms c\<bar> \<longrightarrow> at_ms b \<le> at_ms c)"
        proof (intro ballI impI)
          fix b assume b: "b \<in> set actions" "in_window t e b"
          from mem [OF b] show "\<bar>t - at_ms c\<bar> \<le> \<bar>t - at_ms b\<bar> \<and>
                (\<bar>t - at_ms b\<bar> = \<bar>t - at_ms c\<bar> \<longrightarrow> at_ms b \<le> at_ms c)"
          proof
            assume "b \<in> set B"
            then have "at_ms b \<le> at_ms p" "at_ms b \<le> t" using p(2) wB by auto
            then show ?thesis using True c(2) pw(3) by auto
          next
            assume "b \<in> set C"
            then have "at_ms c \<le> at_ms b" "t < at_ms b" using cmin wC by auto
            then show ?thesis using c(2) by auto
          qed
        qed
        ultimately show ?thesis using c(1) by simp
      next
        case okF: False
        then have nc: "\<not> (at_ms c \<le> t + e div 2 \<and> at_ms c - t \<le> t - at_ms p)" by (simp add: ok_def)
        have "getActionAtTime s actions t e = Some p"
          using res okF by simp
        moreover have "\<forall>b\<in>set actions. in_window t e b \<longrightarrow>
                \<bar>t - at_ms p\<bar> \<le> \<bar>t - at_ms b\<bar> \<and>
                (\<bar>t - at_ms b\<bar> = \<bar>t - at_ms p\<bar> \<longrightarrow> at_ms b \<le> at_ms p)"
        proof (intro ballI impI)
          fix b assume b: "b \<in> set actions" "in_window t e b"
          from mem [OF b] show "\<bar>t - at_ms p\<bar> \<le> \<bar>t - at_ms b\<bar> \<and>
                (\<bar>t - at_ms b\<bar> = \<bar>t - at_ms p\<bar> \<longrightarrow> at_ms b \<le> at_ms p)"
          proof
            assume "b \<in> set B"
            then have "at_ms b \<le> at_ms p" "at_ms b \<le> t" using p(2) wB by auto
            then show ?thesis using pw(3) by auto
          next
            assume "b \<in> set C"
            then have "at_ms c \<le> at_ms b" "t < at_ms b" using cmin wC by auto
            moreover have "at_ms b \<le> t + e div 2" using b(2) by (simp add: in_window_def)
            ultimately show ?thesis using nc c(2) pw(3) by auto
          qed
        qed
        ultimately show ?thesis using pw(1) pin by simp
      qed
    qed
  qed
qed

theorem getActionAtTime_window_witness:
  "strictly_sorted near_example \<and> ms_range 10 \<and> ms_range 100 \<and>
   getActionAtTime stale_script near_example 10 100 = Some \<lparr>at_ms = 20, pos = 90\<rparr> \<and>
   in_window 10 100 \<lparr>at_ms = 20, pos = 90\<rparr> \<and>
   getActionAtTime stale_script near_example 300 100 = None \<and>
   \<not> in_window 300 100 \<lparr>at_ms = 0, pos = 10\<rparr>"
proof -
  have h1: "strictly_sorted near_example"
    by (simp add: near_example_def strictly_sorted_def)
  have h2: "\<forall>a\<in>set near_example. ms_range (at_ms a)"
    by (simp add: near_example_def ms_range_def)
  have h3: "ms_range 10" "ms_range 300" and h4: "ms_range 100" by (simp_all add: ms_range_def)
  have h5: "SplineNeedsUpdate stale_script \<or> ActionMap stale_script = SplineUpdate near_example"
    by (simp add: stale_script_def)
  have r1: "getActionAtTime stale_script near_example 10 100 = Some \<lparr>at_ms = 20, pos = 90\<rparr>"
    by (simp add: getActionAtTime_def stale_script_def near_example_def u32_def INT32_MAX_def)
  have r2: "getActionAtTime stale_script near_example 300 100 = None"
    by (simp add: getActionAtTime_def stale_script_def near_example_def u32_def INT32_MAX_def)
  have "in_window 10 100 \<lparr>at_ms = 20, pos = 90\<rparr>"
    using getActionAtTime_window [OF h1 h2 h3(1) h4 h5, unfolded r1] by simp
  moreover have "\<not> in_window 300 100 \<lparr>at_ms = 0, pos = 10\<rparr>"
    using getActionAtTime_window [OF h1 h2 h3(2) h4 h5, unfolded r2] by (simp add: near_example_def)
  ultimately show ?thesis using h1 h3 h4 r1 r2 by simp
qed

section \<open>Facts about equalizing\<close>





lemma selection_fold_AddAction [simp]: "selection (fold AddAction cs s) = selection s"
  by (induction cs arbitrary: s) (simp_all add: AddAction_def Let_def NotifyActionsChanged_def)





lemma strictly_sorted_hd_last:
  assumes "strictly_sorted xs" and "xs \<noteq> []"
  shows "at_ms (hd xs) \<le> at_ms (last xs)"
  using strictly_sorted_last [OF assms] assms(2) by simp

section \<open>Even spacing of the selection\<close>




end
